theory Spec2Isabelle
  imports Main "HOL-Library.AList" "HOL-Library.Sublist" "HOL-Library.Multiset"
begin

section \<open>Chat records and the line pattern\<close>

text \<open>
  \<^verbatim>\<open>Oblivilog.py\<close> reads chat transcripts line by line, keeps the lines that match
  \<^verbatim>\<open>\[(?P<timestamp>.+?)\] (?P<username>.+?): (?P<message>.+)\<close>
  and are no gift-sub notification, and aggregates the surviving entries.
  A string is a list of characters; a line is what \<^verbatim>\<open>file.readlines()\<close> returns, so
  the only line break it can hold is the one that ends it.
\<close>

record entry =
  timestamp :: string
  username :: string
  message :: string

definition newline :: char where
  "newline = CHR 0x0A"

text \<open>The regular expression's \<^verbatim>\<open>.\<close>: any character but the line break.\<close>

definition dot :: "char \<Rightarrow> bool" where
  "dot c \<longleftrightarrow> c \<noteq> newline"

text \<open>
  The pattern is matched by backtracking, as \<^verbatim>\<open>re\<close> does. The final greedy
  \<^verbatim>\<open>(?P<message>.+)\<close> takes every character up to the line break and needs one at
  least. The lazy groups \<^verbatim>\<open>.+?\<close> take one character, try the rest of the pattern,
  and take one more character each time the rest fails.
\<close>

definition match_message :: "string \<Rightarrow> string option" where
  "match_message s = (let m = takeWhile dot s in if m = [] then None else Some m)"

fun match_username :: "string \<Rightarrow> string \<Rightarrow> (string \<times> string) option" where
  "match_username u [] = None"
| "match_username u (c # cs) =
     (if \<not> dot c then None
      else (case (if prefix '': '' cs then match_message (drop 2 cs) else None) of
              Some m \<Rightarrow> Some (u @ [c], m)
            | None \<Rightarrow> match_username (u @ [c]) cs))"

fun match_timestamp :: "string \<Rightarrow> string \<Rightarrow> entry option" where
  "match_timestamp t [] = None"
| "match_timestamp t (c # cs) =
     (if \<not> dot c then None
      else (case (if prefix ''] '' cs then match_username [] (drop 2 cs) else None) of
              Some (u, m) \<Rightarrow> Some \<lparr>timestamp = t @ [c], username = u, message = m\<rparr>
            | None \<Rightarrow> match_timestamp (t @ [c]) cs))"

text \<open>\<^verbatim>\<open>pattern.match(line)\<close> followed by \<^verbatim>\<open>match.groupdict()\<close>; the match is anchored
  at the start of the line.\<close>

definition pattern_match :: "string \<Rightarrow> entry option" where
  "pattern_match line =
     (case line of
        [] \<Rightarrow> None
      | c # cs \<Rightarrow> if c = CHR ''['' then match_timestamp [] cs else None)"

text \<open>The gift-sub filter: Python's \<^verbatim>\<open>in\<close> on strings is the contiguous-substring test.\<close>

definition gift_sub :: "string \<Rightarrow> bool" where
  "gift_sub m \<longleftrightarrow> sublist ''gifted a Tier 1 sub to'' m \<or> sublist ''is gifting'' m"

text \<open>The body of the loop over the lines: the entry appended for one line, if any.\<close>

definition parse_line :: "string \<Rightarrow> entry option" where
  "parse_line line =
     (case pattern_match line of
        None \<Rightarrow> None
      | Some e \<Rightarrow> if \<not> gift_sub (message e) then Some e else None)"

text \<open>The loop of \<^verbatim>\<open>parse_chat_data\<close>, with \<^verbatim>\<open>chat_entries\<close> as accumulator.\<close>

fun parse_loop :: "string list \<Rightarrow> entry list \<Rightarrow> entry list" where
  "parse_loop [] chat_entries = chat_entries"
| "parse_loop (line # chat_data) chat_entries =
     parse_loop chat_data
       (case parse_line line of
          Some e \<Rightarrow> chat_entries @ [e]
        | None \<Rightarrow> chat_entries)"

text \<open>The text \<^verbatim>\<open>[T] U: M\<close>.\<close>

definition shape :: "string \<Rightarrow> string \<Rightarrow> string \<Rightarrow> string" where
  "shape T U M = CHR ''['' # T @ ''] '' @ U @ '': '' @ M"

text \<open>What may end a line: nothing (the last line of a file) or one line break.\<close>

definition line_end :: "string \<Rightarrow> bool" where
  "line_end nl \<longleftrightarrow> nl = [] \<or> nl = [newline]"

section \<open>Frames, series and files\<close>

text \<open>
  The exceptions that can end a run (\<^verbatim>\<open>KeyError\<close> with the missing label), and the
  records written by \<^verbatim>\<open>logging\<close> (level and message).
\<close>

datatype py_error = KeyError string | ValueError

datatype level = INFO | WARNING | ERROR

type_synonym log = "(level \<times> string) list"

text \<open>
  A \<^verbatim>\<open>DataFrame\<close> of chat entries: its column labels and its rows. A frame built from
  an empty list of dictionaries has no column at all; the frame returned after a read
  failure names its three columns.
\<close>

record data_frame =
  columns :: "string list"
  rows :: "entry list"

definition DataFrame :: "entry list \<Rightarrow> data_frame" where
  "DataFrame chat_entries =
     \<lparr>columns = (if chat_entries = [] then [] else [''timestamp'', ''username'', ''message'']),
      rows = chat_entries\<rparr>"

definition DataFrame_columns :: data_frame where
  "DataFrame_columns = \<lparr>columns = [''timestamp'', ''username'', ''message''], rows = []\<rparr>"

text \<open>\<^verbatim>\<open>chat_df[name]\<close>: the column, or \<^verbatim>\<open>KeyError\<close> when the frame has no such label.\<close>

definition column :: "data_frame \<Rightarrow> string \<Rightarrow> (entry \<Rightarrow> string) \<Rightarrow> py_error + string list" where
  "column df name field =
     (if name \<in> set (columns df) then Inr (map field (rows df)) else Inl (KeyError name))"

text \<open>
  A file path either fails to open or decode, with the text of the exception, or
  gives the lines \<^verbatim>\<open>readlines()\<close> returns.
\<close>

type_synonym file_system = "string \<Rightarrow> string + string list"

definition parse_chat_data :: "file_system \<Rightarrow> string \<Rightarrow> log \<times> data_frame" where
  "parse_chat_data fs file_path =
     (case fs file_path of
        Inl e \<Rightarrow> ([(ERROR, ''Error reading file '' @ file_path @ '': '' @ e)], DataFrame_columns)
      | Inr chat_data \<Rightarrow> ([], DataFrame (parse_loop chat_data [])))"

text \<open>The loop of \<^verbatim>\<open>concatenate_dfs\<close>, with the log and \<^verbatim>\<open>dfs\<close> as state.\<close>

fun read_all :: "file_system \<Rightarrow> string list \<Rightarrow> log \<times> data_frame list \<Rightarrow> log \<times> data_frame list" where
  "read_all fs [] (lg, dfs) = (lg, dfs)"
| "read_all fs (file_path # file_paths) (lg, dfs) =
     (case parse_chat_data fs file_path of
        (l, df) \<Rightarrow> read_all fs file_paths (lg @ l, dfs @ [df]))"

text \<open>
  \<^verbatim>\<open>pd.concat(dfs, ignore_index=True)\<close>: it refuses an empty list; the columns are the
  union of the frames' columns in order of appearance, the rows follow frame by frame.
\<close>

definition union_columns :: "data_frame list \<Rightarrow> string list" where
  "union_columns dfs =
     foldl (\<lambda>acc c. if c \<in> set acc then acc else acc @ [c]) [] (concat (map columns dfs))"

definition pd_concat :: "data_frame list \<Rightarrow> py_error + data_frame" where
  "pd_concat dfs =
     (if dfs = [] then Inl ValueError
      else Inr \<lparr>columns = union_columns dfs, rows = concat (map rows dfs)\<rparr>)"

definition concatenate_dfs :: "file_system \<Rightarrow> string list \<Rightarrow> log \<times> (py_error + data_frame)" where
  "concatenate_dfs fs file_paths =
     (case read_all fs file_paths ([], []) of (lg, dfs) \<Rightarrow> (lg, pd_concat dfs))"

text \<open>
  A \<^verbatim>\<open>Series\<close> of counts: index labels with their values, in order. Python's
  \<^verbatim>\<open>sorted(..., reverse=True)\<close> is stable: equal keys keep their order.
  \<^verbatim>\<open>value_counts()\<close> tallies each label in order of first appearance and sorts by count,
  largest first; the order among equal counts is the library's, taken here as the order
  of first appearance, and no theorem below depends on it.
\<close>

type_synonym series = "(string \<times> nat) list"

definition sorted_reverse :: "('a \<Rightarrow> nat) \<Rightarrow> 'a list \<Rightarrow> 'a list" where
  "sorted_reverse key xs = rev (sort_key key (rev xs))"

definition count_up :: "series \<Rightarrow> string \<Rightarrow> series" where
  "count_up d k = AList.update k (case map_of d k of None \<Rightarrow> 1 | Some n \<Rightarrow> Suc n) d"

definition value_counts :: "string list \<Rightarrow> series" where
  "value_counts xs = sorted_reverse snd (foldl count_up [] xs)"

definition analyze_data :: "data_frame \<Rightarrow> py_error + series" where
  "analyze_data chat_df =
     (case column chat_df ''username'' username of
        Inl e \<Rightarrow> Inl e
      | Inr names \<Rightarrow> Inr (value_counts names))"

text \<open>\<^verbatim>\<open>Series.get(key, default)\<close> and \<^verbatim>\<open>str.lower()\<close> (on ASCII letters).\<close>

definition series_get :: "series \<Rightarrow> string \<Rightarrow> nat \<Rightarrow> nat" where
  "series_get s k d = (case map_of s k of Some v \<Rightarrow> v | None \<Rightarrow> d)"

definition lower_char :: "char \<Rightarrow> char" where
  "lower_char c =
     (case map_of (zip ''ABCDEFGHIJKLMNOPQRSTUVWXYZ'' ''abcdefghijklmnopqrstuvwxyz'') c of
        Some l \<Rightarrow> l
      | None \<Rightarrow> c)"

definition lower :: "string \<Rightarrow> string" where
  "lower s = map lower_char s"

text \<open>Decimal numbers: \<^verbatim>\<open>f"{n}"\<close>, and \<^verbatim>\<open>f"{n:,}"\<close> with a comma every three digits.\<close>

definition digit_char :: "nat \<Rightarrow> char" where
  "digit_char d = ''0123456789'' ! d"

fun str_nat :: "nat \<Rightarrow> string" where
  "str_nat n = (if n < 10 then [digit_char n] else str_nat (n div 10) @ [digit_char (n mod 10)])"

fun commas :: "string \<Rightarrow> string" where
  "commas ds =
     (if length ds \<le> 3 then ds
      else commas (take (length ds - 3) ds) @ '','' @ drop (length ds - 3) ds)"

definition format_commas :: "nat \<Rightarrow> string" where
  "format_commas n = commas (str_nat n)"

text \<open>
  \<^verbatim>\<open>visualize_top_users\<close>: the data source, the \<^verbatim>\<open>max\<close> of the counts (which raises on
  an empty series) and the figure's title. The styling and the floating-point range of
  the vertical axis are left out.
\<close>

record chart =
  users :: "string list"
  counts :: "nat list"
  counts_formatted :: "string list"
  title :: string

definition visualize_top_users :: "series \<Rightarrow> py_error + chart" where
  "visualize_top_users top_users =
     (if top_users = [] then Inl ValueError
      else Inr \<lparr>users = map fst top_users,
                counts = map snd top_users,
                counts_formatted = map (\<lambda>x. format_commas (snd x)) top_users,
                title = ''Top Users by Message Count (Total Messages: ''
                   @ format_commas (sum_list (map snd top_users)) @ '')''\<rparr>)"

text \<open>
  \<^verbatim>\<open>save_user_list_to_file\<close>: \<^verbatim>\<open>groupby\<close> keys the groups by the distinct counts in
  ascending order and lists in each group the labels holding that count, in the order
  of the series; the groups are then sorted by count, largest first, and written one
  list item each. The one exception the writing can raise is the \<^verbatim>\<open>IndexError\<close> of
  \<^verbatim>\<open>users[-1]\<close> on a group without users (\<open>None\<close> below): it stops the writing, keeps
  the lines written so far and is logged.
\<close>

definition groupby_count :: "series \<Rightarrow> (nat \<times> string list) list" where
  "groupby_count message_count =
     map (\<lambda>c. (c, map fst (filter (\<lambda>p. snd p = c) message_count)))
       (sort (remdups (map snd message_count)))"

definition group_by_count :: "series \<Rightarrow> (nat \<times> string list) list" where
  "group_by_count message_count = sorted_reverse fst (groupby_count message_count)"

fun join :: "string \<Rightarrow> string list \<Rightarrow> string" where
  "join sep [] = []"
| "join sep [x] = x"
| "join sep (x # y # ys) = x @ sep @ join sep (y # ys)"

definition list_item :: "nat \<Rightarrow> string list \<Rightarrow> string option" where
  "list_item cnt us =
     (if length us = 1 then
        Some (''<li>'' @ us ! 0 @ '': '' @ str_nat cnt @ '' messages</li>'' @ [newline])
      else if length us = 2 then
        Some (''<li>'' @ us ! 0 @ '' and '' @ us ! 1 @ '': '' @ str_nat cnt
              @ '' messages each</li>'' @ [newline])
      else if us = [] then None
      else
        Some (''<li>'' @ (join '', '' (butlast us) @ '' and '' @ last us) @ '': ''
              @ str_nat cnt @ '' messages each</li>'' @ [newline]))"

fun write_groups :: "(nat \<times> string list) list \<Rightarrow> string list \<Rightarrow> string list \<times> bool" where
  "write_groups [] file = (file, False)"
| "write_groups ((cnt, us) # groups) file =
     (case list_item cnt us of
        None \<Rightarrow> (file, True)
      | Some line \<Rightarrow> write_groups groups (file @ [line]))"

definition save_user_list_to_file :: "series \<Rightarrow> string \<Rightarrow> log \<times> string list" where
  "save_user_list_to_file message_count filename =
     (case write_groups (group_by_count message_count) [] of
        (file, False) \<Rightarrow> ([], file)
      | (file, True) \<Rightarrow>
          ([(ERROR, ''Error writing to file '' @ filename @ '': list index out of range'')],
           file))"

definition append_totals_to_file :: "series \<Rightarrow> string list \<Rightarrow> string list" where
  "append_totals_to_file message_count_per_user file =
     file @ [[newline] @ ''Total Messages Sent: ''
               @ str_nat (sum_list (map snd message_count_per_user)) @ [newline],
             ''Total Participants: '' @ str_nat (length message_count_per_user) @ [newline]]"

text \<open>
  \<^verbatim>\<open>str.count(sub)\<close>: the occurrences found scanning from the left, the search going on
  after the end of each one; the empty string is found once at every position.
\<close>

function str_count :: "string \<Rightarrow> string \<Rightarrow> nat" where
  "str_count s sub =
     (if sub = [] then length s + 1
      else if s = [] then 0
      else if prefix sub s then 1 + str_count (drop (length sub) s) sub
      else str_count (tl s) sub)"
  by pat_completeness auto
termination
  by (relation "measure (\<lambda>(s, sub). length s)") auto

text \<open>
  \<^verbatim>\<open>count_emote_usage\<close>: a dictionary keyed by emote (a repeated emote keeps its first
  place), each value the sum over the message column. The column is read once per
  emote, so a frame without it raises unless the emote list is empty.
\<close>

definition count_emote_usage :: "data_frame \<Rightarrow> string list \<Rightarrow> py_error + series" where
  "count_emote_usage chat_df emotes =
     (if emotes = [] then Inr []
      else (case column chat_df ''message'' message of
              Inl e \<Rightarrow> Inl e
            | Inr messages \<Rightarrow>
                Inr (foldl (\<lambda>emote_counts emote.
                       AList.update emote (sum_list (map (\<lambda>x. str_count x emote) messages))
                         emote_counts) [] emotes)))"

definition save_emote_usage_to_file :: "series \<Rightarrow> string list" where
  "save_emote_usage_to_file emote_usage =
     map (\<lambda>(emote, cnt). emote @ '': '' @ str_nat cnt @ [newline]) emote_usage"

text \<open>The configuration and the emote list of \<^verbatim>\<open>process_streamer_data\<close>.\<close>

definition TARGET_USERS :: "string list" where
  "TARGET_USERS = [[]]"

definition TOP_USERS_COUNT :: nat where
  "TOP_USERS_COUNT = 50"

definition emote_list :: "string list" where
  "emote_list =
     [''oblivi118WINK'', ''oblivi118Lighter'', ''oblivi118Hands'', ''oblivi118Gun'',
      ''oblivi118Cozy'', ''oblivi118Cookie'', ''oblivi118Lurking'', ''oblivi118Giggle'',
      ''oblivi118Sip'', ''oblivi118Pat'', ''oblivi118Sing'', ''oblivi118Heart'',
      ''oblivi118Blush'', ''oblivi118Huh'', ''oblivi118Lol'', ''oblivi118Hehe'',
      ''oblivi118What'', ''oblivi118Evil'', ''oblivi118Zzz'', ''oblivi118Tea'']"

text \<open>
  \<^verbatim>\<open>process_streamer_data\<close> on one source directory: \<open>file_paths\<close> is what \<^verbatim>\<open>glob\<close>
  finds there. The result is the log and either the exception that ends the run or the
  files written (none when the directory holds no \<^verbatim>\<open>.txt\<close> file). The parsed
  timestamps are read by no later step, so of that assignment only the column access is
  kept. Creating directories and writing the outputs are taken to succeed.
\<close>

record outputs =
  top_users_chart :: chart
  user_message_counts :: "string list"
  emote_usage_file :: "string list"

definition process_streamer_data ::
  "file_system \<Rightarrow> string \<Rightarrow> string list \<Rightarrow> log \<times> (py_error + outputs option)" where
  "process_streamer_data fs streamer_path file_paths =
     (let lg0 = [(INFO, ''Processing data for streamer: '' @ streamer_path)] in
      if file_paths = [] then
        (lg0 @ [(WARNING, ''No chat files found in '' @ streamer_path)], Inr None)
      else
        (case concatenate_dfs fs file_paths of
           (lg1, Inl e) \<Rightarrow> (lg0 @ lg1, Inl e)
         | (lg1, Inr chat_df) \<Rightarrow>
        (case column chat_df ''timestamp'' timestamp of
           Inl e \<Rightarrow> (lg0 @ lg1, Inl e)
         | Inr ts \<Rightarrow>
        (case analyze_data chat_df of
           Inl e \<Rightarrow> (lg0 @ lg1, Inl e)
         | Inr message_count_per_user \<Rightarrow>
        (let top_users = take TOP_USERS_COUNT message_count_per_user in
         case visualize_top_users top_users of
           Inl e \<Rightarrow> (lg0 @ lg1, Inl e)
         | Inr c \<Rightarrow>
        (case count_emote_usage chat_df emote_list of
           Inl e \<Rightarrow> (lg0 @ lg1, Inl e)
         | Inr emote_usage \<Rightarrow>
        (case save_user_list_to_file message_count_per_user
                (streamer_path @ ''/user_message_counts.txt'') of
           (lg2, file) \<Rightarrow>
             (lg0 @ lg1 @ lg2
                @ map (\<lambda>user. (INFO, ''Final count for '' @ user @ '': ''
                          @ str_nat (series_get message_count_per_user (lower user) 0)))
                    TARGET_USERS,
              Inr (Some \<lparr>top_users_chart = c,
                         user_message_counts = append_totals_to_file message_count_per_user file,
                         emote_usage_file =
                           save_emote_usage_to_file (sorted_reverse snd emote_usage)\<rparr>)))))))))"

text \<open>
  The count the specification describes for an emote: every position of the message
  at which the token starts, overlapping or not.
\<close>

definition occurrences :: "string \<Rightarrow> string \<Rightarrow> nat" where
  "occurrences sub s = length (filter (\<lambda>i. prefix sub (drop i s)) [0..<length s])"

section \<open>The line parser\<close>

lemma two_prefix_inside:
  assumes "a \<noteq> b" and "V \<noteq> []" and "\<not> sublist [a, b] V"
  shows "\<not> prefix [a, b] (V @ a # b # R)"
proof (cases V)
  case Nil
  with assms show ?thesis by simp
next
  case (Cons x V')
  show ?thesis
  proof (cases V')
    case Nil
    with Cons assms show ?thesis by auto
  next
    case (Cons y V'')
    with \<open>V = x # V'\<close> assms(3) have "\<not> prefix [a, b] V"
      using prefix_imp_sublist by blast
    with Cons \<open>V = x # V'\<close> show ?thesis by auto
  qed
qed

lemma match_message_dots:
  assumes "M \<noteq> []" and "\<forall>c\<in>set M. dot c" and "line_end nl"
  shows "match_message (M @ nl) = Some M"
proof -
  have "takeWhile dot (M @ nl) = M"
    using assms by (auto simp: line_end_def dot_def takeWhile_append2)
  with assms(1) show ?thesis by (simp add: match_message_def)
qed

lemma match_message_end: "line_end nl \<Longrightarrow> match_message nl = None"
  by (auto simp: line_end_def match_message_def dot_def)

lemma match_message_Some:
  assumes "match_message s = Some m"
  shows "m \<noteq> [] \<and> (\<forall>c\<in>set m. dot c) \<and> (\<exists>rest. s = m @ rest)"
proof -
  from assms have m: "m = takeWhile dot s" and "m \<noteq> []"
    by (auto simp: match_message_def Let_def split: if_splits)
  have "s = m @ dropWhile dot s" by (simp add: m)
  moreover have "\<forall>c\<in>set m. dot c" using m by (auto dest: set_takeWhileD)
  ultimately show ?thesis using \<open>m \<noteq> []\<close> by blast
qed

subsection \<open>Well-formed lines are read back exactly\<close>

lemma match_username_exact:
  assumes "U \<noteq> []" and "\<forall>c\<in>set U. dot c" and "\<not> sublist '': '' U"
    and M: "M \<noteq> []" "\<forall>c\<in>set M. dot c" "line_end nl"
  shows "match_username acc (U @ '': '' @ M @ nl) = Some (acc @ U, M)"
  using assms(1-3)
proof (induction U arbitrary: acc)
  case Nil
  then show ?case by simp
next
  case (Cons c U')
  show ?case
  proof (cases "U' = []")
    case True
    then show ?thesis
      using Cons.prems match_message_dots [OF M] by simp
  next
    case False
    from Cons.prems have ns: "\<not> sublist '': '' U'"
      by (simp add: sublist_Cons_right)
    have np: "\<not> prefix '': '' (U' @ '': '' @ M @ nl)"
      using two_prefix_inside [of "CHR '':''" "CHR '' ''" U' "M @ nl"] False ns by simp
    have "match_username (acc @ [c]) (U' @ '': '' @ M @ nl) = Some ((acc @ [c]) @ U', M)"
      using Cons.IH [OF False _ ns] Cons.prems by simp
    then show ?thesis
      using np Cons.prems by simp
  qed
qed

lemma match_timestamp_exact:
  assumes "T \<noteq> []" and "\<forall>c\<in>set T. dot c" and "\<not> sublist ''] '' T"
    and U: "U \<noteq> []" "\<forall>c\<in>set U. dot c" "\<not> sublist '': '' U"
    and M: "M \<noteq> []" "\<forall>c\<in>set M. dot c" "line_end nl"
  shows "match_timestamp acc (T @ ''] '' @ U @ '': '' @ M @ nl)
         = Some \<lparr>timestamp = acc @ T, username = U, message = M\<rparr>"
  using assms(1-3)
proof (induction T arbitrary: acc)
  case Nil
  then show ?case by simp
next
  case (Cons c T')
  show ?case
  proof (cases "T' = []")
    case True
    then show ?thesis
      using Cons.prems match_username_exact [OF U M, of "[]"] by simp
  next
    case False
    from Cons.prems have ns: "\<not> sublist ''] '' T'"
      by (simp add: sublist_Cons_right)
    have np: "\<not> prefix ''] '' (T' @ ''] '' @ U @ '': '' @ M @ nl)"
      using two_prefix_inside [of "CHR '']''" "CHR '' ''" T' "U @ '': '' @ M @ nl"] False ns
      by simp
    have "match_timestamp (acc @ [c]) (T' @ ''] '' @ U @ '': '' @ M @ nl)
          = Some \<lparr>timestamp = (acc @ [c]) @ T', username = U, message = M\<rparr>"
      using Cons.IH [OF False _ ns] Cons.prems by simp
    then show ?thesis
      using np Cons.prems by simp
  qed
qed

subsection \<open>Every match has the shape\<close>

lemma match_username_Some:
  "match_username acc s = Some (u, m) \<Longrightarrow>
   \<exists>u' rest. u = acc @ u' \<and> u' \<noteq> [] \<and> m \<noteq> [] \<and> s = u' @ '': '' @ m @ rest"
proof (induction s arbitrary: acc)
  case Nil
  then show ?case by simp
next
  case (Cons c cs)
  show ?case
  proof (cases "if prefix '': '' cs then match_message (drop 2 cs) else None")
    case None
    with Cons.prems have "match_username (acc @ [c]) cs = Some (u, m)"
      by (simp split: if_splits)
    from Cons.IH [OF this] obtain u' rest where
      "u = (acc @ [c]) @ u'" "m \<noteq> []" "cs = u' @ '': '' @ m @ rest" by blast
    then have "u = acc @ (c # u') \<and> c # u' \<noteq> [] \<and> m \<noteq> [] \<and> c # cs = (c # u') @ '': '' @ m @ rest"
      by simp
    then show ?thesis by blast
  next
    case (Some m')
    then have p: "prefix '': '' cs" and mm: "match_message (drop 2 cs) = Some m'"
      by (simp_all split: if_splits)
    from Cons.prems Some have um: "u = acc @ [c]" "m = m'"
      by (simp_all split: if_splits)
    from match_message_Some [OF mm] obtain rest where
      "m' \<noteq> []" "drop 2 cs = m' @ rest" by blast
    moreover from p have "cs = '': '' @ drop 2 cs"
      by (auto simp: prefix_def)
    ultimately have "c # cs = [c] @ '': '' @ m @ rest \<and> m \<noteq> []"
      using um by simp
    with um show ?thesis by blast
  qed
qed

lemma match_timestamp_Some:
  "match_timestamp acc s = Some e \<Longrightarrow>
   \<exists>t' rest. timestamp e = acc @ t' \<and> t' \<noteq> [] \<and> username e \<noteq> [] \<and> message e \<noteq> [] \<and>
     s = t' @ ''] '' @ username e @ '': '' @ message e @ rest"
proof (induction s arbitrary: acc)
  case Nil
  then show ?case by simp
next
  case (Cons c cs)
  show ?case
  proof (cases "if prefix ''] '' cs then match_username [] (drop 2 cs) else None")
    case None
    with Cons.prems have "match_timestamp (acc @ [c]) cs = Some e"
      by (simp split: if_splits)
    from Cons.IH [OF this] obtain t' rest where
      "timestamp e = (acc @ [c]) @ t'" "username e \<noteq> []" "message e \<noteq> []"
      "cs = t' @ ''] '' @ username e @ '': '' @ message e @ rest" by blast
    then have "timestamp e = acc @ (c # t') \<and> c # t' \<noteq> [] \<and> username e \<noteq> [] \<and>
        message e \<noteq> [] \<and> c # cs = (c # t') @ ''] '' @ username e @ '': '' @ message e @ rest"
      by simp
    then show ?thesis by blast
  next
    case (Some um)
    obtain u m where um: "um = (u, m)" by (cases um)
    from Some um have p: "prefix ''] '' cs" and mu: "match_username [] (drop 2 cs) = Some (u, m)"
      by (simp_all split: if_splits)
    from Cons.prems Some um have e: "e = \<lparr>timestamp = acc @ [c], username = u, message = m\<rparr>"
      by (simp split: if_splits)
    from match_username_Some [OF mu] obtain rest where
      "u \<noteq> []" "m \<noteq> []" "drop 2 cs = u @ '': '' @ m @ rest" by auto
    moreover from p have "cs = ''] '' @ drop 2 cs"
      by (auto simp: prefix_def)
    ultimately have "c # cs = [c] @ ''] '' @ username e @ '': '' @ message e @ rest
        \<and> username e \<noteq> [] \<and> message e \<noteq> [] \<and> timestamp e = acc @ [c]"
      using e by simp
    then show ?thesis by blast
  qed
qed

lemma pattern_match_Some:
  assumes "pattern_match line = Some e"
  shows "timestamp e \<noteq> [] \<and> username e \<noteq> [] \<and> message e \<noteq> [] \<and>
         (\<exists>rest. line = shape (timestamp e) (username e) (message e @ rest))"
proof -
  from assms obtain cs where l: "line = CHR ''['' # cs" and "match_timestamp [] cs = Some e"
    by (auto simp: pattern_match_def split: list.splits if_splits)
  from match_timestamp_Some [OF this(2)] show ?thesis
    by (auto simp: l shape_def)
qed

subsection \<open>Any reading of a line as \<open>[T] U: M\<close> ends inside the matched message\<close>

lemma drop_append_long: "n \<le> length xs \<Longrightarrow> drop n (xs @ ys) = drop n xs @ ys"
  by simp

lemma takeWhile_dot_line:
  assumes "\<forall>c\<in>set X. dot c" and "line_end nl"
  shows "takeWhile dot (X @ nl) = X"
  using assms by (auto simp: line_end_def dot_def)

lemma dot_colon_space [simp]: "dot CHR '':''" "dot CHR '' ''" "dot CHR '']''"
  by (simp_all add: dot_def newline_def)

lemma match_username_finds:
  assumes "U \<noteq> []" and "\<forall>c\<in>set U. dot c"
    and M: "M \<noteq> []" "\<forall>c\<in>set M. dot c" "line_end nl"
  shows "\<exists>u m. match_username acc (U @ '': '' @ M @ nl) = Some (u, m) \<and> suffix M m"
  using assms(1-2)
proof (induction U arbitrary: acc)
  case Nil
  then show ?case by simp
next
  case (Cons c U')
  define cs where "cs = U' @ '': '' @ M @ nl"
  have c: "dot c" using Cons.prems by simp
  show ?case
  proof (cases "if prefix '': '' cs then match_message (drop 2 cs) else None")
    case (Some m)
    then have mm: "match_message (drop 2 cs) = Some m"
      by (simp split: if_splits)
    define X where "X = drop 2 (U' @ '': '')"
    have d: "drop 2 cs = (X @ M) @ nl"
      using drop_append_long [of 2 "U' @ '': ''" "M @ nl"] by (simp add: X_def cs_def)
    have "set X \<subseteq> set (U' @ '': '')"
      unfolding X_def by (rule set_drop_subset)
    with Cons.prems have "\<forall>c\<in>set (X @ M). dot c"
      using M(2) by auto
    then have "takeWhile dot (drop 2 cs) = X @ M"
      unfolding d using M(3) by (rule takeWhile_dot_line)
    with mm have "m = X @ M"
      by (simp add: match_message_def Let_def split: if_splits)
    then have "suffix M m" by (simp add: suffix_def)
    moreover have "match_username acc (c # cs) = Some (acc @ [c], m)"
      unfolding match_username.simps Some using c by simp
    ultimately show ?thesis by (auto simp: cs_def)
  next
    case None
    have "U' \<noteq> []"
    proof
      assume "U' = []"
      with None show False
        using match_message_dots [OF M] by (simp add: cs_def)
    qed
    from Cons.IH [OF this, of "acc @ [c]"] Cons.prems obtain u m where
      "match_username (acc @ [c]) cs = Some (u, m)" "suffix M m" by (auto simp: cs_def)
    moreover have "match_username acc (c # cs) = match_username (acc @ [c]) cs"
      unfolding match_username.simps None using c by simp
    ultimately show ?thesis by (auto simp: cs_def)
  qed
qed

lemma match_timestamp_finds:
  assumes "T \<noteq> []" and "\<forall>c\<in>set T. dot c"
    and U: "U \<noteq> []" "\<forall>c\<in>set U. dot c"
    and M: "M \<noteq> []" "\<forall>c\<in>set M. dot c" "line_end nl"
  shows "\<exists>e. match_timestamp acc (T @ ''] '' @ U @ '': '' @ M @ nl) = Some e
           \<and> suffix M (message e)"
  using assms(1-2)
proof (induction T arbitrary: acc)
  case Nil
  then show ?case by simp
next
  case (Cons c T')
  define cs where "cs = T' @ ''] '' @ U @ '': '' @ M @ nl"
  have c: "dot c" using Cons.prems by simp
  define V where "V = drop 2 (T' @ ''] '') @ U"
  have d: "drop 2 cs = V @ '': '' @ M @ nl"
    using drop_append_long [of 2 "T' @ ''] ''" "U @ '': '' @ M @ nl"]
    by (simp add: V_def cs_def)
  have "set (drop 2 (T' @ ''] '')) \<subseteq> set (T' @ ''] '')"
    by (rule set_drop_subset)
  with Cons.prems U have V: "V \<noteq> []" "\<forall>c\<in>set V. dot c"
    by (auto simp: V_def)
  from match_username_finds [OF V M, of "[]"] obtain u m where
    um: "match_username [] (drop 2 cs) = Some (u, m)" "suffix M m"
    unfolding d by blast
  show ?case
  proof (cases "prefix ''] '' cs")
    case True
    have "match_timestamp acc (c # cs)
        = Some \<lparr>timestamp = acc @ [c], username = u, message = m\<rparr>"
      unfolding match_timestamp.simps um(1) using c True by simp
    with um(2) show ?thesis by (auto simp: cs_def)
  next
    case False
    then have "T' \<noteq> []" by (auto simp: cs_def)
    from Cons.IH [OF this, of "acc @ [c]"] Cons.prems obtain e where
      "match_timestamp (acc @ [c]) cs = Some e" "suffix M (message e)"
      by (auto simp: cs_def)
    moreover have "match_timestamp acc (c # cs) = match_timestamp (acc @ [c]) cs"
      unfolding match_timestamp.simps using c False by simp
    ultimately show ?thesis by (auto simp: cs_def)
  qed
qed

subsection \<open>Lines that stop after the colon and the space\<close>

lemma match_username_no_message:
  assumes "\<not> sublist '': '' U" and "line_end nl"
  shows "match_username acc (U @ '': '' @ nl) = None"
  using assms(1)
proof (induction U arbitrary: acc)
  case Nil
  from assms(2) show ?case
    by (auto simp: line_end_def dot_def)
next
  case (Cons c U')
  from Cons.prems have ns: "\<not> sublist '': '' U'"
    by (simp add: sublist_Cons_right)
  define cs where "cs = U' @ '': '' @ nl"
  have h: "(if prefix '': '' cs then match_message (drop 2 cs) else None) = None"
  proof (cases "U' = []")
    case True
    then show ?thesis
      using match_message_end [OF assms(2)] by (simp add: cs_def)
  next
    case False
    then show ?thesis
      using two_prefix_inside [of "CHR '':''" "CHR '' ''" U' nl] ns by (simp add: cs_def)
  qed
  have "match_username acc (c # cs) = (if \<not> dot c then None else match_username (acc @ [c]) cs)"
    unfolding match_username.simps h by simp
  then show ?case
    using Cons.IH [OF ns, of "acc @ [c]"] by (simp add: cs_def)
qed

lemma prefix_two_split:
  assumes "prefix [a, b] (V @ c # d # R)" and "a \<noteq> c" and "b \<noteq> c"
  shows "\<exists>V'. V = a # b # V'"
proof (cases V)
  case Nil
  with assms show ?thesis by simp
next
  case (Cons x V')
  with assms show ?thesis by (cases V') auto
qed

lemma match_timestamp_no_colon:
  assumes "\<not> sublist '': '' V" and "line_end nl"
  shows "match_timestamp acc (V @ '': '' @ nl) = None"
  using assms(1)
proof (induction V arbitrary: acc)
  case Nil
  from assms(2) show ?case
    by (auto simp: line_end_def dot_def)
next
  case (Cons c V')
  from Cons.prems have ns: "\<not> sublist '': '' V'"
    by (simp add: sublist_Cons_right)
  define cs where "cs = V' @ '': '' @ nl"
  have h: "(if prefix ''] '' cs then match_username [] (drop 2 cs) else None) = None"
  proof (cases "prefix ''] '' cs")
    case True
    with prefix_two_split [of "CHR '']''" "CHR '' ''" V' "CHR '':''" "CHR '' ''" nl]
    obtain V'' where V'': "V' = ''] '' @ V''" by (auto simp: cs_def)
    with ns have "\<not> sublist '': '' V''"
      by (simp add: sublist_Cons_right)
    from match_username_no_message [OF this assms(2), of "[]"] show ?thesis
      by (simp add: V'' cs_def)
  next
    case False
    then show ?thesis by simp
  qed
  have "match_timestamp acc (c # cs) = (if \<not> dot c then None else match_timestamp (acc @ [c]) cs)"
    unfolding match_timestamp.simps h by simp
  then show ?case
    using Cons.IH [OF ns, of "acc @ [c]"] by (simp add: cs_def)
qed

lemma match_timestamp_no_message:
  assumes "\<not> sublist ''] '' T" and U: "\<not> sublist '': '' U" and nl: "line_end nl"
  shows "match_timestamp acc (T @ ''] '' @ U @ '': '' @ nl) = None"
  using assms(1)
proof (induction T arbitrary: acc)
  case Nil
  from U have "\<not> sublist '': '' (CHR '' '' # U)"
    by (simp add: sublist_Cons_right)
  from match_timestamp_no_colon [OF this nl, of "acc @ '']''"] show ?case
    by simp
next
  case (Cons c T')
  from Cons.prems have ns: "\<not> sublist ''] '' T'"
    by (simp add: sublist_Cons_right)
  define cs where "cs = T' @ ''] '' @ U @ '': '' @ nl"
  have h: "(if prefix ''] '' cs then match_username [] (drop 2 cs) else None) = None"
  proof (cases "T' = []")
    case True
    then show ?thesis
      using match_username_no_message [OF U nl, of "[]"] by (simp add: cs_def)
  next
    case False
    then show ?thesis
      using two_prefix_inside [of "CHR '']''" "CHR '' ''" T' "U @ '': '' @ nl"] ns
      by (simp add: cs_def)
  qed
  have "match_timestamp acc (c # cs) = (if \<not> dot c then None else match_timestamp (acc @ [c]) cs)"
    unfolding match_timestamp.simps h by simp
  then show ?case
    using Cons.IH [OF ns, of "acc @ [c]"] by (simp add: cs_def)
qed

lemma sublist_in_suffix: "sublist xs ys \<Longrightarrow> sublist ys zs \<Longrightarrow> sublist xs zs"
  unfolding sublist_def by (metis append.assoc)

lemma parse_loop_single:
  "parse_loop [line] [] = (case parse_line line of Some e \<Rightarrow> [e] | None \<Rightarrow> [])"
  by (simp split: option.splits)

section \<open>Claims about the line parser\<close>

text \<open>
  C3. A line \<open>[T] U: M\<close>, ended or not by its line break, with \<open>T\<close>, \<open>U\<close> and \<open>M\<close>
  non-empty, \<open>T\<close> free of \<open>] \<close>, \<open>U\<close> free of \<open>: \<close> and \<open>M\<close> free of both gift-sub
  phrases, gives exactly one record, with timestamp \<open>T\<close>, username \<open>U\<close> and message \<open>M\<close>
  unchanged. A line that cannot be read as \<open>[T] U: M\<close> with three non-empty parts
  gives no record. (\<open>T\<close>, \<open>U\<close> and \<open>M\<close> are parts of one line: they hold no line break.)
\<close>

theorem parse_line_shape:
  "(T \<noteq> [] \<and> U \<noteq> [] \<and> M \<noteq> [] \<and> (\<forall>c\<in>set (T @ U @ M). dot c) \<and> line_end nl \<and>
    \<not> sublist ''] '' T \<and> \<not> sublist '': '' U \<and> \<not> gift_sub M
    \<longrightarrow> parse_loop [shape T U M @ nl] [] = [\<lparr>timestamp = T, username = U, message = M\<rparr>])
   \<and> ((\<nexists>T U M. T \<noteq> [] \<and> U \<noteq> [] \<and> M \<noteq> [] \<and> line = shape T U M)
    \<longrightarrow> parse_loop [line] [] = [])"
proof (intro conjI impI)
  assume h: "T \<noteq> [] \<and> U \<noteq> [] \<and> M \<noteq> [] \<and> (\<forall>c\<in>set (T @ U @ M). dot c) \<and> line_end nl \<and>
    \<not> sublist ''] '' T \<and> \<not> sublist '': '' U \<and> \<not> gift_sub M"
  then have "match_timestamp [] (T @ ''] '' @ U @ '': '' @ M @ nl)
      = Some \<lparr>timestamp = [] @ T, username = U, message = M\<rparr>"
    by (intro match_timestamp_exact) auto
  then have "pattern_match (shape T U M @ nl) = Some \<lparr>timestamp = T, username = U, message = M\<rparr>"
    by (simp add: pattern_match_def shape_def)
  with h show "parse_loop [shape T U M @ nl] [] = [\<lparr>timestamp = T, username = U, message = M\<rparr>]"
    by (simp add: parse_loop_single parse_line_def)
next
  assume n: "\<nexists>T U M. T \<noteq> [] \<and> U \<noteq> [] \<and> M \<noteq> [] \<and> line = shape T U M"
  have "pattern_match line = None"
  proof (cases "pattern_match line")
    case (Some e)
    from pattern_match_Some [OF this] n show ?thesis by blast
  qed simp
  then show "parse_loop [line] [] = []"
    by (simp add: parse_loop_single parse_line_def)
qed

theorem parse_line_shape_witness:
  "parse_loop [''[12:00:01] Alice: hello there'' @ [newline]] []
     = [\<lparr>timestamp = ''12:00:01'', username = ''Alice'', message = ''hello there''\<rparr>]
   \<and> parse_loop [''*** stream started'' @ [newline]] [] = []"
proof -
  have a: "''12:00:01'' \<noteq> [] \<and> ''Alice'' \<noteq> [] \<and> ''hello there'' \<noteq> [] \<and>
      (\<forall>c\<in>set (''12:00:01'' @ ''Alice'' @ ''hello there''). dot c) \<and> line_end [newline] \<and>
      \<not> sublist ''] '' ''12:00:01'' \<and> \<not> sublist '': '' ''Alice'' \<and> \<not> gift_sub ''hello there''"
    by (simp add: dot_def newline_def line_end_def gift_sub_def sublist_code)
  have b: "\<nexists>T U M. T \<noteq> [] \<and> U \<noteq> [] \<and> M \<noteq> [] \<and>
      ''*** stream started'' @ [newline] = shape T U M"
    by (simp add: shape_def)
  from parse_line_shape [of "''12:00:01''" "''Alice''" "''hello there''" "[newline]"
      "''*** stream started'' @ [newline]"] a b
  show ?thesis by (simp add: shape_def)
qed

text \<open>
  C4. A line whose message part holds \<open>gifted a Tier 1 sub to\<close> or \<open>is gifting\<close> gives no
  record, also when it has the shape \<open>[T] U: M\<close>: whatever way the line is read as
  \<open>[T] U: M\<close> with \<open>T\<close> and \<open>U\<close> non-empty, a phrase in \<open>M\<close> drops the line, and so does a
  phrase in the message the pattern itself extracts.
\<close>

theorem gift_sub_line_dropped:
  "(T \<noteq> [] \<and> U \<noteq> [] \<and> (\<forall>c\<in>set (T @ U @ M). dot c) \<and> line_end nl \<and> gift_sub M
    \<longrightarrow> parse_line (shape T U M @ nl) = None \<and> parse_loop [shape T U M @ nl] [] = [])
   \<and> (\<forall>e. pattern_match line = Some e \<and> gift_sub (message e)
    \<longrightarrow> parse_line line = None \<and> parse_loop [line] [] = [])"
proof (intro conjI impI allI)
  assume h: "T \<noteq> [] \<and> U \<noteq> [] \<and> (\<forall>c\<in>set (T @ U @ M). dot c) \<and> line_end nl \<and> gift_sub M"
  then have "M \<noteq> []"
    by (auto simp: gift_sub_def)
  with h have "\<exists>e. match_timestamp [] (T @ ''] '' @ U @ '': '' @ M @ nl) = Some e
      \<and> suffix M (message e)"
    by (intro match_timestamp_finds) auto
  then obtain e where e: "pattern_match (shape T U M @ nl) = Some e" "suffix M (message e)"
    by (auto simp: pattern_match_def shape_def)
  from e(2) have "sublist M (message e)" by (rule suffix_imp_sublist)
  with h have "gift_sub (message e)"
    unfolding gift_sub_def by (blast intro: sublist_in_suffix)
  with e(1) show p: "parse_line (shape T U M @ nl) = None"
    by (simp add: parse_line_def)
  then show "parse_loop [shape T U M @ nl] [] = []"
    by (simp add: parse_loop_single)
next
  fix e
  assume "pattern_match line = Some e \<and> gift_sub (message e)"
  then show p: "parse_line line = None"
    by (simp add: parse_line_def)
  then show "parse_loop [line] [] = []"
    by (simp add: parse_loop_single)
qed

theorem gift_sub_line_dropped_witness:
  "parse_line (''[12:00:02] Bob: Bob is gifting 5 Tier 1 Subs!'' @ [newline]) = None
   \<and> parse_line ''[12:00:03] Carol: Carol gifted a Tier 1 sub to Dave!'' = None"
proof -
  have a: "''12:00:02'' \<noteq> [] \<and> ''Bob'' \<noteq> [] \<and>
      (\<forall>c\<in>set (''12:00:02'' @ ''Bob'' @ ''Bob is gifting 5 Tier 1 Subs!''). dot c) \<and>
      line_end [newline] \<and> gift_sub ''Bob is gifting 5 Tier 1 Subs!''"
    by (simp add: dot_def newline_def line_end_def gift_sub_def sublist_code)
  have b: "pattern_match ''[12:00:03] Carol: Carol gifted a Tier 1 sub to Dave!''
        = Some \<lparr>timestamp = ''12:00:03'', username = ''Carol'',
                message = ''Carol gifted a Tier 1 sub to Dave!''\<rparr>
      \<and> gift_sub (message \<lparr>timestamp = ''12:00:03'', username = ''Carol'',
                message = ''Carol gifted a Tier 1 sub to Dave!''\<rparr>)"
    by (simp add: pattern_match_def match_message_def dot_def newline_def gift_sub_def
        sublist_code)
  from gift_sub_line_dropped [of "''12:00:02''" "''Bob''" "''Bob is gifting 5 Tier 1 Subs!''"
      "[newline]" "''[12:00:03] Carol: Carol gifted a Tier 1 sub to Dave!''"] a b
  show ?thesis by (simp add: shape_def)
qed

text \<open>
  C10. A line \<open>[T] U: \<close> with nothing after the colon and the space (\<open>T\<close> free of \<open>] \<close>
  and \<open>U\<close> free of \<open>: \<close>, so that the message part is the empty rest) gives no record:
  the pattern needs one message character at least, and no record ever has an empty
  message.
\<close>

theorem empty_message_no_record:
  "(\<not> sublist ''] '' T \<and> \<not> sublist '': '' U \<and> line_end nl
    \<longrightarrow> parse_line (shape T U [] @ nl) = None \<and> parse_loop [shape T U [] @ nl] [] = [])
   \<and> (\<forall>e. parse_line line = Some e \<longrightarrow> message e \<noteq> [])"
proof (intro conjI impI allI)
  assume "\<not> sublist ''] '' T \<and> \<not> sublist '': '' U \<and> line_end nl"
  then have "match_timestamp [] (T @ ''] '' @ U @ '': '' @ nl) = None"
    by (intro match_timestamp_no_message) auto
  then show p: "parse_line (shape T U [] @ nl) = None"
    by (simp add: parse_line_def pattern_match_def shape_def)
  then show "parse_loop [shape T U [] @ nl] [] = []"
    by (simp add: parse_loop_single)
next
  fix e
  assume "parse_line line = Some e"
  then have "pattern_match line = Some e"
    by (auto simp: parse_line_def split: option.splits if_splits)
  from pattern_match_Some [OF this] show "message e \<noteq> []" by simp
qed

theorem empty_message_no_record_witness:
  "parse_line (''[12:00:04] Erin: '' @ [newline]) = None
   \<and> message \<lparr>timestamp = ''12:00:05'', username = ''Frank'', message = ''x''\<rparr> \<noteq> []"
proof -
  have a: "\<not> sublist ''] '' ''12:00:04'' \<and> \<not> sublist '': '' ''Erin'' \<and> line_end [newline]"
    by (simp add: line_end_def sublist_code)
  have b: "parse_line ''[12:00:05] Frank: x''
      = Some \<lparr>timestamp = ''12:00:05'', username = ''Frank'', message = ''x''\<rparr>"
    by (simp add: parse_line_def pattern_match_def match_message_def dot_def newline_def
        gift_sub_def sublist_code)
  from empty_message_no_record [of "''12:00:04''" "''Erin''" "[newline]" "''[12:00:05] Frank: x''"]
    a b
  show ?thesis by (simp add: shape_def)
qed

section \<open>Loading the files\<close>

lemma parse_loop_append: "parse_loop chat_data acc = acc @ List.map_filter parse_line chat_data"
  by (induction chat_data arbitrary: acc) (auto split: option.splits)

lemma read_all_unfold:
  "read_all fs ps (lg, dfs) =
     (lg @ concat (map (\<lambda>p. fst (parse_chat_data fs p)) ps),
      dfs @ map (\<lambda>p. snd (parse_chat_data fs p)) ps)"
  by (induction ps arbitrary: lg dfs) (auto split: prod.splits)

lemma parse_chat_data_log:
  "fst (parse_chat_data fs p) =
     (case fs p of
        Inl e \<Rightarrow> [(ERROR, ''Error reading file '' @ p @ '': '' @ e)]
      | Inr chat_data \<Rightarrow> [])"
  by (simp add: parse_chat_data_def split: sum.splits)

lemma parse_chat_data_rows:
  "rows (snd (parse_chat_data fs p)) =
     (case fs p of Inl e \<Rightarrow> [] | Inr chat_data \<Rightarrow> List.map_filter parse_line chat_data)"
  by (simp add: parse_chat_data_def DataFrame_def DataFrame_columns_def parse_loop_append
      split: sum.splits)

lemma parse_chat_data_columns:
  "columns (snd (parse_chat_data fs p)) =
     (if isl (fs p) \<or> rows (snd (parse_chat_data fs p)) \<noteq> []
      then [''timestamp'', ''username'', ''message''] else [])"
  by (simp add: parse_chat_data_def DataFrame_def DataFrame_columns_def split: sum.splits)

lemma concatenate_dfs_unfold:
  assumes "file_paths \<noteq> []"
  shows "concatenate_dfs fs file_paths =
     (concat (map (\<lambda>p. fst (parse_chat_data fs p)) file_paths),
      Inr \<lparr>columns = union_columns (map (\<lambda>p. snd (parse_chat_data fs p)) file_paths),
           rows = concat (map (\<lambda>p. rows (snd (parse_chat_data fs p))) file_paths)\<rparr>)"
  using assms by (simp add: concatenate_dfs_def read_all_unfold pd_concat_def comp_def)

lemma concatenate_dfs_empty: "concatenate_dfs fs [] = ([], Inl ValueError)"
  by (simp add: concatenate_dfs_def pd_concat_def)

lemma set_union_fold:
  "set (foldl (\<lambda>acc c. if c \<in> set acc then acc else acc @ [c]) a cs) = set a \<union> set cs"
  by (induction cs arbitrary: a) auto

lemma set_union_columns: "set (union_columns dfs) = (\<Union>df\<in>set dfs. set (columns df))"
  by (simp add: union_columns_def set_union_fold)

lemma concatenate_dfs_has_columns:
  assumes "concatenate_dfs fs file_paths = (lg, Inr chat_df)"
  shows "name \<in> set (columns chat_df) \<longleftrightarrow>
     name \<in> {''timestamp'', ''username'', ''message''} \<and>
     ((\<exists>p\<in>set file_paths. isl (fs p)) \<or> rows chat_df \<noteq> [])"
proof -
  from assms have ne: "file_paths \<noteq> []"
    by (auto simp: concatenate_dfs_empty)
  from assms have c: "columns chat_df
      = union_columns (map (\<lambda>p. snd (parse_chat_data fs p)) file_paths)"
    and r: "rows chat_df = concat (map (\<lambda>p. rows (snd (parse_chat_data fs p))) file_paths)"
    unfolding concatenate_dfs_unfold [OF ne] by auto
  have "name \<in> set (columns chat_df) \<longleftrightarrow>
      (\<exists>p\<in>set file_paths. name \<in> set (columns (snd (parse_chat_data fs p))))"
    by (simp add: c set_union_columns)
  also have "\<dots> \<longleftrightarrow> name \<in> {''timestamp'', ''username'', ''message''} \<and>
      (\<exists>p\<in>set file_paths. isl (fs p) \<or> rows (snd (parse_chat_data fs p)) \<noteq> [])"
    by (subst parse_chat_data_columns) auto
  also have "\<dots> \<longleftrightarrow> name \<in> {''timestamp'', ''username'', ''message''} \<and>
      ((\<exists>p\<in>set file_paths. isl (fs p)) \<or> rows chat_df \<noteq> [])"
    by (auto simp: r)
  finally show ?thesis .
qed

section \<open>Counting\<close>

lemma sum_count_up: "sum_list (map snd (count_up d k)) = Suc (sum_list (map snd d))"
  unfolding count_up_def by (induction d) auto

lemma sum_tally: "sum_list (map snd (foldl count_up d xs)) = sum_list (map snd d) + length xs"
  by (induction xs arbitrary: d) (simp_all add: sum_count_up)

lemma mset_sorted_reverse: "mset (sorted_reverse key xs) = mset xs"
  by (simp add: sorted_reverse_def)

lemma sum_sorted_reverse:
  fixes f :: "'a \<Rightarrow> nat"
  shows "sum_list (map f (sorted_reverse key xs)) = sum_list (map f xs)"
proof -
  have "mset (map f (sorted_reverse key xs)) = mset (map f xs)"
    by (simp add: mset_sorted_reverse)
  then show ?thesis
    by (metis sum_mset_sum_list)
qed

lemma sum_value_counts: "sum_list (map snd (value_counts xs)) = length xs"
  by (simp add: value_counts_def sum_sorted_reverse sum_tally)

section \<open>Claims about loading and counting\<close>

text \<open>
  C8. Whatever the (non-empty) list of file paths, a file whose read or decode fails
  adds no record to the concatenated log and one error line to the log output, and
  every other file of the list is still read: the records are those of the readable
  files, in the order of the list and, within a file, in the order of its lines.
\<close>

theorem read_failure_skips_file:
  assumes "file_paths \<noteq> []"
  shows "\<exists>chat_df.
     concatenate_dfs fs file_paths =
       (concat (map (\<lambda>p. case fs p of
                            Inl e \<Rightarrow> [(ERROR, ''Error reading file '' @ p @ '': '' @ e)]
                          | Inr chat_data \<Rightarrow> []) file_paths),
        Inr chat_df)
     \<and> rows chat_df =
         concat (map (\<lambda>p. case fs p of
                             Inl e \<Rightarrow> []
                           | Inr chat_data \<Rightarrow> List.map_filter parse_line chat_data) file_paths)"
  unfolding concatenate_dfs_unfold [OF assms]
  by (simp add: parse_chat_data_log parse_chat_data_rows)

theorem read_failure_skips_file_witness:
  "\<exists>chat_df.
     concatenate_dfs
       (\<lambda>p. if p = ''a.txt'' then Inr [''[12:00:01] Alice: hi'' @ [newline], ''joined'' @ [newline]]
            else if p = ''b.txt'' then Inl ''invalid start byte''
            else Inr [''[12:00:09] Bob: yo''])
       [''a.txt'', ''b.txt'', ''c.txt'']
     = ([(ERROR, ''Error reading file b.txt: invalid start byte'')], Inr chat_df)
     \<and> rows chat_df = [\<lparr>timestamp = ''12:00:01'', username = ''Alice'', message = ''hi''\<rparr>,
                        \<lparr>timestamp = ''12:00:09'', username = ''Bob'', message = ''yo''\<rparr>]"
proof -
  have ne: "[''a.txt'', ''b.txt'', ''c.txt''] \<noteq> []" by simp
  show ?thesis
    using read_failure_skips_file [OF ne,
        of "\<lambda>p. if p = ''a.txt'' then Inr [''[12:00:01] Alice: hi'' @ [newline], ''joined'' @ [newline]]
            else if p = ''b.txt'' then Inl ''invalid start byte''
            else Inr [''[12:00:09] Bob: yo'']"]
    by (simp add: parse_line_def pattern_match_def match_message_def dot_def newline_def
        gift_sub_def sublist_code)
qed

text \<open>
  Whenever \<^verbatim>\<open>analyze_data\<close> returns counts for a log of the loader, their values add up
  to the number of rows of the log, which is the number of lines of the readable files
  that survived the pattern and the gift-sub filter; and it returns counts as soon as
  the log has a record or a file could not be read.
\<close>

lemma counts_sum_to_rows:
  assumes "concatenate_dfs fs file_paths = (lg, Inr chat_df)"
  shows "(\<forall>cs. analyze_data chat_df = Inr cs
            \<longrightarrow> sum_list (map snd cs) = length (rows chat_df))
     \<and> ((\<exists>p\<in>set file_paths. isl (fs p)) \<or> rows chat_df \<noteq> []
            \<longrightarrow> (\<exists>cs. analyze_data chat_df = Inr cs))
     \<and> length (rows chat_df) =
         (\<Sum>p\<leftarrow>file_paths. case fs p of
                              Inl e \<Rightarrow> 0
                            | Inr chat_data \<Rightarrow>
                                length (filter (\<lambda>line. parse_line line \<noteq> None) chat_data))"
proof (intro conjI allI impI)
  fix cs
  assume "analyze_data chat_df = Inr cs"
  then have "cs = value_counts (map username (rows chat_df))"
    by (auto simp: analyze_data_def column_def split: if_splits)
  then show "sum_list (map snd cs) = length (rows chat_df)"
    by (simp add: sum_value_counts)
next
  assume "(\<exists>p\<in>set file_paths. isl (fs p)) \<or> rows chat_df \<noteq> []"
  with concatenate_dfs_has_columns [OF assms, of "''username''"]
  have "''username'' \<in> set (columns chat_df)" by simp
  then show "\<exists>cs. analyze_data chat_df = Inr cs"
    by (simp add: analyze_data_def column_def)
next
  from assms have ne: "file_paths \<noteq> []"
    by (auto simp: concatenate_dfs_empty)
  from assms have "rows chat_df
      = concat (map (\<lambda>p. rows (snd (parse_chat_data fs p))) file_paths)"
    unfolding concatenate_dfs_unfold [OF ne] by auto
  then have "length (rows chat_df)
      = (\<Sum>p\<leftarrow>file_paths. length (rows (snd (parse_chat_data fs p))))"
    by (simp add: length_concat comp_def)
  also have "\<dots> = (\<Sum>p\<leftarrow>file_paths. case fs p of
                              Inl e \<Rightarrow> 0
                            | Inr chat_data \<Rightarrow>
                                length (filter (\<lambda>line. parse_line line \<noteq> None) chat_data))"
    by (rule arg_cong [where f = sum_list], rule map_cong)
      (auto simp: parse_chat_data_rows map_filter_def split: sum.splits)
  finally show "length (rows chat_df) =
         (\<Sum>p\<leftarrow>file_paths. case fs p of
                              Inl e \<Rightarrow> 0
                            | Inr chat_data \<Rightarrow>
                                length (filter (\<lambda>line. parse_line line \<noteq> None) chat_data))" .
qed

lemma counts_sum_to_rows_example:
  "\<exists>cs. analyze_data
            \<lparr>columns = [''timestamp'', ''username'', ''message''],
             rows = [\<lparr>timestamp = ''12:00:01'', username = ''Alice'', message = ''hi''\<rparr>,
                     \<lparr>timestamp = ''12:00:02'', username = ''Bob'', message = ''yo''\<rparr>,
                     \<lparr>timestamp = ''12:00:03'', username = ''Alice'', message = ''bye''\<rparr>]\<rparr>
          = Inr cs \<and> sum_list (map snd cs) = 3"
proof -
  let ?fs = "\<lambda>p::string. Inr [''[12:00:01] Alice: hi'' @ [newline],
      ''[12:00:02] Bob: yo'' @ [newline], ''[12:00:02] Bob: Bob is gifting 5 subs'' @ [newline],
      ''[12:00:03] Alice: bye''] :: string + string list"
  let ?df = "\<lparr>columns = [''timestamp'', ''username'', ''message''],
             rows = [\<lparr>timestamp = ''12:00:01'', username = ''Alice'', message = ''hi''\<rparr>,
                     \<lparr>timestamp = ''12:00:02'', username = ''Bob'', message = ''yo''\<rparr>,
                     \<lparr>timestamp = ''12:00:03'', username = ''Alice'', message = ''bye''\<rparr>]\<rparr>"
  have h: "concatenate_dfs ?fs [''a.txt''] = ([], Inr ?df)"
    by (simp add: concatenate_dfs_def pd_concat_def parse_chat_data_def DataFrame_def
        union_columns_def parse_line_def pattern_match_def match_message_def dot_def
        newline_def gift_sub_def sublist_code)
  from counts_sum_to_rows [OF h] show ?thesis
    by auto
qed

lemma analyze_data_raises_iff:
  assumes "concatenate_dfs fs file_paths = (lg, Inr chat_df)"
  shows "analyze_data chat_df = Inl (KeyError ''username'')
     \<longleftrightarrow> \<not> (\<exists>p\<in>set file_paths. isl (fs p)) \<and> rows chat_df = []"
proof -
  have "''username'' \<in> set (columns chat_df)
      \<longleftrightarrow> (\<exists>p\<in>set file_paths. isl (fs p)) \<or> rows chat_df \<noteq> []"
    using concatenate_dfs_has_columns [OF assms, of "''username''"] by simp
  then show ?thesis
    by (auto simp: analyze_data_def column_def)
qed

text \<open>
  C2. For every log the loader returns, the values of the per-user counts are to add
  up to the number of rows of the log. For a readable file without any line of the
  pattern the loader returns a log with no row and no column, and \<^verbatim>\<open>analyze_data\<close>
  raises \<^verbatim>\<open>KeyError\<close> on it where counts adding up to 0 are due.
\<close>

theorem analyze_data_raises_on_empty_log:
  "concatenate_dfs (\<lambda>p. Inr [''stream started'' @ [newline]]) [''chattrans/x/a.txt'']
     = ([], Inr \<lparr>columns = [], rows = []\<rparr>)
   \<and> analyze_data \<lparr>columns = [], rows = []\<rparr> = Inl (KeyError ''username'')
   \<and> length (rows \<lparr>columns = [], rows = []\<rparr>) = 0"
  by code_simp

section \<open>Grouping users by count\<close>

lemma sorted_reverse_strict:
  assumes "sorted (map key xs)" and "distinct (map key xs)"
  shows "sorted_reverse key xs = rev xs"
proof -
  from assms(2) have "inj_on key (set (rev xs))"
    by (simp add: distinct_map)
  with assms(1) have "sort_key key (rev xs) = xs"
    by (intro sort_key_inj_key_eq) simp_all
  then show ?thesis by (simp add: sorted_reverse_def)
qed

lemma group_by_count_unfold:
  "group_by_count s =
     map (\<lambda>c. (c, map fst (filter (\<lambda>p. snd p = c) s))) (rev (sort (remdups (map snd s))))"
proof -
  have k: "map fst (groupby_count s) = sort (remdups (map snd s))"
    by (simp add: groupby_count_def comp_def)
  have "sorted_reverse fst (groupby_count s) = rev (groupby_count s)"
    by (rule sorted_reverse_strict) (simp_all add: k)
  then show ?thesis
    by (simp add: group_by_count_def groupby_count_def rev_map)
qed

lemma filter_count_split:
  "d \<notin> set ds \<Longrightarrow>
   mset (filter (\<lambda>p. snd p = d) s) + mset (filter (\<lambda>p. snd p \<in> set ds) s)
     = mset (filter (\<lambda>p. snd p \<in> set (d # ds)) s)"
  by (induction s) auto

lemma groups_cover:
  "distinct ds \<Longrightarrow>
   mset (concat (map (\<lambda>c. filter (\<lambda>p. snd p = c) s) ds))
     = mset (filter (\<lambda>p. snd p \<in> set ds) s)"
proof (induction ds)
  case Nil
  show ?case by simp
next
  case (Cons d ds)
  then have "mset (concat (map (\<lambda>c. filter (\<lambda>p. snd p = c) s) (d # ds)))
      = mset (filter (\<lambda>p. snd p = d) s) + mset (filter (\<lambda>p. snd p \<in> set ds) s)"
    by simp
  also have "\<dots> = mset (filter (\<lambda>p. snd p \<in> set (d # ds)) s)"
    using Cons.prems by (intro filter_count_split) simp
  finally show ?case .
qed

lemma groups_users:
  "mset (concat (map snd (group_by_count s))) = mset (map fst s)"
proof -
  let ?ds = "rev (sort (remdups (map snd s)))"
  have "concat (map snd (group_by_count s))
      = map fst (concat (map (\<lambda>c. filter (\<lambda>p. snd p = c) s) ?ds))"
    by (simp add: group_by_count_unfold comp_def map_concat)
  moreover have "mset (concat (map (\<lambda>c. filter (\<lambda>p. snd p = c) s) ?ds))
      = mset (filter (\<lambda>p. snd p \<in> set ?ds) s)"
    by (rule groups_cover) simp
  moreover have "filter (\<lambda>p. snd p \<in> set ?ds) s = s"
    by (simp add: filter_id_conv)
  ultimately show ?thesis
    by (metis mset_map)
qed

lemma group_keys_descending: "sorted_wrt (\<lambda>x y. x > y) (map fst (group_by_count s))"
proof -
  have "map fst (group_by_count s) = rev (sort (remdups (map snd s)))"
    by (simp add: group_by_count_unfold comp_def)
  moreover have "sorted_wrt (<) (sort (remdups (map snd s)))"
    by (simp add: strict_sorted_iff)
  ultimately show ?thesis
    by (simp add: sorted_wrt_rev)
qed

text \<open>
  C9. The grouping of \<^verbatim>\<open>save_user_list_to_file\<close> splits the users of a count series
  into groups of equal count: the group keys are the counts that occur, in strictly
  descending order; each group lists exactly the users holding its count, in the order
  of the series; every user is in one group. On the counts alice 5, bob 5, carol 3 the
  groups are 5 with alice and bob, then 3 with carol, and the group of two is written
  as the list item \<open>alice and bob: 5 messages each\<close>.
\<close>

theorem group_by_count_groups:
  "sorted_wrt (\<lambda>x y. x > y) (map fst (group_by_count message_count))
   \<and> set (map fst (group_by_count message_count)) = snd ` set message_count
   \<and> (\<forall>(c, us)\<in>set (group_by_count message_count).
        us \<noteq> [] \<and> us = map fst (filter (\<lambda>p. snd p = c) message_count))
   \<and> mset (concat (map snd (group_by_count message_count))) = mset (map fst message_count)
   \<and> group_by_count [(''alice'', 5), (''bob'', 5), (''carol'', 3)]
       = [(5, [''alice'', ''bob'']), (3, [''carol''])]
   \<and> save_user_list_to_file [(''alice'', 5), (''bob'', 5), (''carol'', 3)] filename
       = ([], [''<li>alice and bob: 5 messages each</li>'' @ [newline],
               ''<li>carol: 3 messages</li>'' @ [newline]])"
proof (intro conjI)
  show "sorted_wrt (\<lambda>x y. x > y) (map fst (group_by_count message_count))"
    by (rule group_keys_descending)
  show "set (map fst (group_by_count message_count)) = snd ` set message_count"
    by (simp add: group_by_count_unfold comp_def)
  show "\<forall>(c, us)\<in>set (group_by_count message_count).
        us \<noteq> [] \<and> us = map fst (filter (\<lambda>p. snd p = c) message_count)"
    by (auto simp: group_by_count_unfold filter_empty_conv)
  show "mset (concat (map snd (group_by_count message_count))) = mset (map fst message_count)"
    by (rule groups_users)
  show g: "group_by_count [(''alice'', 5), (''bob'', 5), (''carol'', 3)]
       = [(5, [''alice'', ''bob'']), (3, [''carol''])]"
    by (simp add: group_by_count_unfold)
  show "save_user_list_to_file [(''alice'', 5), (''bob'', 5), (''carol'', 3)] filename
       = ([], [''<li>alice and bob: 5 messages each</li>'' @ [newline],
               ''<li>carol: 3 messages</li>'' @ [newline]])"
    by (simp add: save_user_list_to_file_def g list_item_def digit_char_def)
qed

theorem group_by_count_groups_witness:
  "(2, [''dave'', ''frank'', ''gina''])
     \<in> set (group_by_count [(''erin'', 7), (''dave'', 2), (''frank'', 2), (''gina'', 2)])
   \<and> [''dave'', ''frank'', ''gina'']
     = map fst (filter (\<lambda>p. snd p = 2)
         [(''erin'', 7::nat), (''dave'', 2), (''frank'', 2), (''gina'', 2)])
   \<and> map fst (group_by_count [(''erin'', 7), (''dave'', 2), (''frank'', 2), (''gina'', 2)])
     = [7, 2]"
proof -
  let ?s = "[(''erin'', 7), (''dave'', 2), (''frank'', 2), (''gina'', 2)] :: series"
  have g: "group_by_count ?s = [(7, [''erin'']), (2, [''dave'', ''frank'', ''gina''])]"
    by (simp add: group_by_count_unfold)
  then have m: "(2, [''dave'', ''frank'', ''gina'']) \<in> set (group_by_count ?s)"
    by simp
  have "\<forall>(c, us)\<in>set (group_by_count ?s).
      us \<noteq> [] \<and> us = map fst (filter (\<lambda>p. snd p = c) ?s)"
    by (rule group_by_count_groups [of ?s "[]", THEN conjunct2, THEN conjunct2, THEN conjunct1])
  from bspec [OF this m] have e: "[''dave'', ''frank'', ''gina'']
      = map fst (filter (\<lambda>p. snd p = 2) ?s)"
    by simp
  have k: "map fst (group_by_count ?s) = [7, 2]"
    unfolding g by simp
  from m e k show ?thesis by (intro conjI)
qed

section \<open>Counting emotes\<close>

declare str_count.simps [simp del]

lemma str_count_empty: "sub \<noteq> [] \<Longrightarrow> str_count [] sub = 0"
  by (subst str_count.simps) simp

lemma str_count_found:
  "sub \<noteq> [] \<Longrightarrow> prefix sub s \<Longrightarrow> str_count s sub = 1 + str_count (drop (length sub) s) sub"
  by (subst str_count.simps) auto

lemma str_count_skip:
  "sub \<noteq> [] \<Longrightarrow> \<not> prefix sub (c # s) \<Longrightarrow> str_count (c # s) sub = str_count s sub"
  by (subst str_count.simps) simp

lemma str_count_zero_iff: "sub \<noteq> [] \<Longrightarrow> str_count s sub = 0 \<longleftrightarrow> \<not> sublist sub s"
proof (induction s sub rule: str_count.induct)
  case (1 s sub)
  show ?case
  proof (cases s)
    case Nil
    with "1.prems" show ?thesis by (simp add: str_count_empty)
  next
    case (Cons c s')
    show ?thesis
    proof (cases "prefix sub s")
      case True
      with "1.prems" show ?thesis
        by (simp add: str_count_found)
    next
      case False
      with "1.IH"(2) "1.prems" Cons have "str_count s' sub = 0 \<longleftrightarrow> \<not> sublist sub s'"
        by simp
      with False "1.prems" Cons show ?thesis
        by (simp add: str_count_skip sublist_Cons_right)
    qed
  qed
qed

lemma occurrences_Nil: "occurrences sub [] = 0"
  by (simp add: occurrences_def)

lemma occurrences_Cons:
  "occurrences sub (c # s) = (if prefix sub (c # s) then 1 else 0) + occurrences sub s"
proof -
  have "[0..<Suc (length s)] = 0 # [Suc 0..<Suc (length s)]"
    by (rule upt_conv_Cons) simp
  also have "[Suc 0..<Suc (length s)] = map Suc [0..<length s]"
    by (rule map_Suc_upt [symmetric])
  finally have h: "[0..<Suc (length s)] = 0 # map Suc [0..<length s]" .
  show ?thesis
    unfolding occurrences_def length_Cons h by (simp add: filter_map comp_def)
qed

lemma occurrences_drop: "occurrences sub (drop n s) \<le> occurrences sub s"
proof (induction s arbitrary: n)
  case Nil
  show ?case by simp
next
  case (Cons c s)
  show ?case
  proof (cases n)
    case 0
    then show ?thesis by simp
  next
    case (Suc m)
    with Cons.IH [of m] show ?thesis
      by (simp add: occurrences_Cons)
  qed
qed

lemma str_count_le_occurrences: "sub \<noteq> [] \<Longrightarrow> str_count s sub \<le> occurrences sub s"
proof (induction s sub rule: str_count.induct)
  case (1 s sub)
  show ?case
  proof (cases s)
    case Nil
    with "1.prems" show ?thesis by (simp add: str_count_empty)
  next
    case (Cons c s')
    show ?thesis
    proof (cases "prefix sub s")
      case True
      from "1.prems" obtain x sub' where sub: "sub = x # sub'" by (cases sub) auto
      have d: "drop (length sub) s = drop (length sub') s'"
        by (simp add: sub Cons)
      from "1.IH"(1) "1.prems" True Cons
      have "str_count (drop (length sub) s) sub \<le> occurrences sub (drop (length sub) s)"
        by simp
      also have "\<dots> \<le> occurrences sub s'"
        unfolding d by (rule occurrences_drop)
      finally have le: "str_count (drop (length sub) s) sub \<le> occurrences sub s'" .
      have "str_count s sub = 1 + str_count (drop (length sub) s) sub"
        using "1.prems" True by (rule str_count_found)
      moreover have "occurrences sub s = 1 + occurrences sub s'"
        using True by (simp add: Cons occurrences_Cons)
      ultimately show ?thesis
        using le by simp
    next
      case False
      with "1.IH"(2) "1.prems" Cons have "str_count s' sub \<le> occurrences sub s'"
        by simp
      with False "1.prems" Cons show ?thesis
        by (simp add: str_count_skip occurrences_Cons)
    qed
  qed
qed

lemma emote_fold_lookup:
  "map_of (foldl (\<lambda>d e. AList.update e (f e) d) d0 es) k
     = (if k \<in> set es then Some (f k) else map_of d0 k)"
  by (induction es arbitrary: d0) (auto simp: update_conv')

lemma emote_fold_keys:
  "fst ` set (foldl (\<lambda>d e. AList.update e (f e) d) d0 es) = fst ` set d0 \<union> set es"
  by (induction es arbitrary: d0) (auto simp: dom_update)

lemma emote_fold_distinct:
  "distinct (map fst d0) \<Longrightarrow> distinct (map fst (foldl (\<lambda>d e. AList.update e (f e) d) d0 es))"
  by (induction es arbitrary: d0) (auto simp: distinct_update)

lemma sum_list_zero: "(\<And>x. x \<in> set xs \<Longrightarrow> f x = (0::nat)) \<Longrightarrow> sum_list (map f xs) = 0"
  by (induction xs) auto

text \<open>
  C5, as the code has it. For a log with its message column, \<^verbatim>\<open>count_emote_usage\<close>
  returns one entry per emote token of the list, holding the sum over all messages of
  \<^verbatim>\<open>str.count\<close>: occurrences are counted from the left and the scan goes on after the
  end of each occurrence found, so an occurrence overlapping a counted one is not
  counted (\<open>aa\<close> counts once in \<open>aaa\<close>, \<open>abc\<close> twice in \<open>abc abc\<close>). That count is never
  above the number of positions at which the token occurs and is zero exactly when the
  token occurs nowhere; a token found in no message is in the output with 0.
\<close>

theorem count_emote_usage_sums:
  assumes "''message'' \<in> set (columns chat_df)"
  shows "\<exists>r. count_emote_usage chat_df emotes = Inr r
     \<and> set (map fst r) = set emotes \<and> distinct (map fst r)
     \<and> (\<forall>emote\<in>set emotes.
          map_of r emote = Some (\<Sum>x\<leftarrow>map message (rows chat_df). str_count x emote)
          \<and> (emote \<noteq> [] \<and> (\<forall>x\<in>set (rows chat_df). \<not> sublist emote (message x))
               \<longrightarrow> map_of r emote = Some 0))
     \<and> (\<forall>x emote. emote \<noteq> [] \<longrightarrow>
          str_count x emote \<le> occurrences emote x
          \<and> (str_count x emote = 0 \<longleftrightarrow> \<not> sublist emote x)
          \<and> (prefix emote x \<longrightarrow>
               str_count x emote = 1 + str_count (drop (length emote) x) emote)
          \<and> (\<forall>c. \<not> prefix emote (c # x) \<longrightarrow> str_count (c # x) emote = str_count x emote))
     \<and> str_count ''abc abc'' ''abc'' = 2 \<and> str_count ''aaa'' ''aa'' = 1"
proof -
  let ?f = "\<lambda>emote. \<Sum>x\<leftarrow>map message (rows chat_df). str_count x emote"
  let ?r = "foldl (\<lambda>d e. AList.update e (?f e) d) [] emotes"
  have r: "count_emote_usage chat_df emotes = Inr ?r"
    using assms by (simp add: count_emote_usage_def column_def)
  have k: "set (map fst ?r) = set emotes"
    using emote_fold_keys [of ?f "[]" emotes] by simp
  have d: "distinct (map fst ?r)"
    by (rule emote_fold_distinct) simp
  have v: "\<forall>emote\<in>set emotes. map_of ?r emote = Some (?f emote)
      \<and> (emote \<noteq> [] \<and> (\<forall>x\<in>set (rows chat_df). \<not> sublist emote (message x))
               \<longrightarrow> map_of ?r emote = Some 0)"
  proof (intro ballI conjI impI)
    fix emote
    assume e: "emote \<in> set emotes"
    then show m: "map_of ?r emote = Some (?f emote)"
      by (simp add: emote_fold_lookup)
    assume "emote \<noteq> [] \<and> (\<forall>x\<in>set (rows chat_df). \<not> sublist emote (message x))"
    then have "(\<Sum>x\<leftarrow>rows chat_df. str_count (message x) emote) = 0"
      by (intro sum_list_zero) (simp add: str_count_zero_iff)
    with m show "map_of ?r emote = Some 0"
      by (simp add: comp_def)
  qed
  have s: "\<forall>x emote. emote \<noteq> [] \<longrightarrow>
          str_count x emote \<le> occurrences emote x
          \<and> (str_count x emote = 0 \<longleftrightarrow> \<not> sublist emote x)
          \<and> (prefix emote x \<longrightarrow>
               str_count x emote = 1 + str_count (drop (length emote) x) emote)
          \<and> (\<forall>c. \<not> prefix emote (c # x) \<longrightarrow> str_count (c # x) emote = str_count x emote)"
    by (simp add: str_count_le_occurrences str_count_zero_iff str_count_found str_count_skip)
  have x1: "str_count ''abc abc'' ''abc'' = 2"
    by (simp add: str_count_found str_count_skip str_count_empty)
  have x2: "str_count ''aaa'' ''aa'' = 1"
    by (simp add: str_count_found str_count_skip str_count_empty)
  from r k d v s x1 x2 show ?thesis by blast
qed

theorem count_emote_usage_sums_witness:
  "\<exists>r. count_emote_usage
          \<lparr>columns = [''timestamp'', ''username'', ''message''],
           rows = [\<lparr>timestamp = ''12:00:01'', username = ''Alice'', message = ''Kappa Kappa''\<rparr>,
                   \<lparr>timestamp = ''12:00:02'', username = ''Bob'', message = ''hi Kappa''\<rparr>]\<rparr>
          [''Kappa'', ''LUL''] = Inr r
     \<and> map_of r ''Kappa'' = Some 3 \<and> map_of r ''LUL'' = Some 0"
proof -
  let ?df = "\<lparr>columns = [''timestamp'', ''username'', ''message''],
           rows = [\<lparr>timestamp = ''12:00:01'', username = ''Alice'', message = ''Kappa Kappa''\<rparr>,
                   \<lparr>timestamp = ''12:00:02'', username = ''Bob'', message = ''hi Kappa''\<rparr>]\<rparr>"
  have a: "''message'' \<in> set (columns ?df)" by simp
  have k: "(\<Sum>x\<leftarrow>map message (rows ?df). str_count x ''Kappa'') = 3"
    by (simp add: str_count_found str_count_skip str_count_empty)
  have l: "''LUL'' \<noteq> [] \<and> (\<forall>x\<in>set (rows ?df). \<not> sublist ''LUL'' (message x))"
    by (simp add: sublist_code)
  from count_emote_usage_sums [OF a, of "[''Kappa'', ''LUL'']"] obtain r where
    r: "count_emote_usage ?df [''Kappa'', ''LUL''] = Inr r"
    and v: "\<forall>emote\<in>set [''Kappa'', ''LUL''].
          map_of r emote = Some (\<Sum>x\<leftarrow>map message (rows ?df). str_count x emote)
          \<and> (emote \<noteq> [] \<and> (\<forall>x\<in>set (rows ?df). \<not> sublist emote (message x))
               \<longrightarrow> map_of r emote = Some 0)"
    by blast
  have m1: "''Kappa'' \<in> set [''Kappa'', ''LUL'']" and m2: "''LUL'' \<in> set [''Kappa'', ''LUL'']"
    by simp_all
  from bspec [OF v m1]
  have "map_of r ''Kappa'' = Some (\<Sum>x\<leftarrow>map message (rows ?df). str_count x ''Kappa'')"
    by blast
  then have "map_of r ''Kappa'' = Some 3"
    unfolding k .
  moreover from bspec [OF v m2] l have "map_of r ''LUL'' = Some 0"
    by blast
  ultimately show ?thesis using r by blast
qed

text \<open>
  C5 as stated fails: for the token \<open>aa\<close> and the single message \<open>aaa\<close> the token starts
  at two positions, and the count returned is 1.
\<close>

theorem count_emote_usage_overlap_counterexample:
  "count_emote_usage
     \<lparr>columns = [''timestamp'', ''username'', ''message''],
      rows = [\<lparr>timestamp = ''12:00:01'', username = ''Alice'', message = ''aaa''\<rparr>]\<rparr>
     [''aa''] = Inr [(''aa'', 1)]
   \<and> occurrences ''aa'' ''aaa'' = 2"
  by (simp add: count_emote_usage_def column_def str_count_found str_count_skip str_count_empty
      occurrences_Cons occurrences_Nil)

section \<open>Runs of the whole pipeline\<close>

text \<open>
  C1. The per-user counts are to be keyed by the lowercase username, two spellings of
  one name being tallied together; the lookup of the traced users asks for
  \<^verbatim>\<open>user.lower()\<close>. \<^verbatim>\<open>analyze_data\<close> counts the usernames as written: \<open>Alice\<close> and \<open>alice\<close>
  get one entry each, and after two messages of \<open>Alice\<close> the count found under the
  lowercase key is 0.
\<close>

theorem analyze_data_case_sensitive:
  "(case analyze_data
      \<lparr>columns = [''timestamp'', ''username'', ''message''],
       rows = [\<lparr>timestamp = ''12:00:01'', username = ''Alice'', message = ''hi''\<rparr>,
               \<lparr>timestamp = ''12:00:02'', username = ''alice'', message = ''hi''\<rparr>]\<rparr> of
      Inr cs \<Rightarrow> length cs = 2 \<and> map_of cs ''Alice'' = Some 1 \<and> map_of cs ''alice'' = Some 1
    | Inl e \<Rightarrow> False)
   \<and> lower ''Alice'' = ''alice''
   \<and> analyze_data
     \<lparr>columns = [''timestamp'', ''username'', ''message''],
      rows = [\<lparr>timestamp = ''12:00:01'', username = ''Alice'', message = ''hi''\<rparr>,
              \<lparr>timestamp = ''12:00:02'', username = ''Alice'', message = ''yo''\<rparr>]\<rparr>
     = Inr [(''Alice'', 2)]
   \<and> series_get [(''Alice'', 2)] (lower ''Alice'') 0 = 0"
  by code_simp

text \<open>
  C6. Processing a source directory is to end without an uncaught exception. With no
  \<^verbatim>\<open>.txt\<close> file it logs a warning and writes nothing. With one readable file that
  holds no line of the pattern it raises \<^verbatim>\<open>KeyError\<close> at the timestamp column, and with
  one unreadable file it raises \<^verbatim>\<open>ValueError\<close> at the \<^verbatim>\<open>max\<close> of no counts.
\<close>

theorem process_streamer_data_raises:
  "process_streamer_data fs ''chattrans/x'' []
     = ([(INFO, ''Processing data for streamer: chattrans/x''),
         (WARNING, ''No chat files found in chattrans/x'')], Inr None)
   \<and> process_streamer_data (\<lambda>p. Inr [''stream started'' @ [newline]]) ''chattrans/x''
       [''chattrans/x/a.txt'']
     = ([(INFO, ''Processing data for streamer: chattrans/x'')], Inl (KeyError ''timestamp''))
   \<and> process_streamer_data (\<lambda>p. Inl ''denied'') ''chattrans/x'' [''chattrans/x/a.txt'']
     = ([(INFO, ''Processing data for streamer: chattrans/x''),
         (ERROR, ''Error reading file chattrans/x/a.txt: denied'')], Inl ValueError)"
proof (intro conjI)
  show "process_streamer_data fs ''chattrans/x'' []
     = ([(INFO, ''Processing data for streamer: chattrans/x''),
         (WARNING, ''No chat files found in chattrans/x'')], Inr None)"
    by (simp add: process_streamer_data_def)
  show "process_streamer_data (\<lambda>p. Inr [''stream started'' @ [newline]]) ''chattrans/x''
       [''chattrans/x/a.txt'']
     = ([(INFO, ''Processing data for streamer: chattrans/x'')], Inl (KeyError ''timestamp''))"
    by code_simp
  show "process_streamer_data (\<lambda>p. Inl ''denied'') ''chattrans/x'' [''chattrans/x/a.txt'']
     = ([(INFO, ''Processing data for streamer: chattrans/x''),
         (ERROR, ''Error reading file chattrans/x/a.txt: denied'')], Inl ValueError)"
    by code_simp
qed

text \<open>
  C7. The chart title is to show the number of messages of the whole log. The title is
  computed from the series cut to the first \<^verbatim>\<open>TOP_USERS_COUNT\<close> users: for a transcript
  of 51 users with one message each the title reads 50, while the listing file of the
  same run reads 51.
\<close>

theorem chart_title_counts_top_users:
  "(case process_streamer_data
          (\<lambda>p. Inr (map (\<lambda>c. ''[12:00:01] '' @ [c] @ '': hi'' @ [newline])
                   ''abcdefghijklmnopqrstuvwxyzABCDEFGHIJKLMNOPQRSTUVWXY''))
          ''chattrans/x'' [''chattrans/x/chat.txt''] of
      (lg, Inr (Some out)) \<Rightarrow>
        title (top_users_chart out) = ''Top Users by Message Count (Total Messages: 50)''
        \<and> user_message_counts out ! 1 = [newline] @ ''Total Messages Sent: 51'' @ [newline]
        \<and> user_message_counts out ! 2 = ''Total Participants: 51'' @ [newline]
    | _ \<Rightarrow> False)"
  by code_simp

end
